theory Spec2Isabelle
  imports Main
begin

section \<open>Python strings and the string operations the program uses\<close>

text \<open>
  A Python \<open>str\<close> is a sequence of Unicode code points, and \<open>len\<close> counts code points.
  The program uses the bullet sign U+2022 and the ellipsis U+2026 as single characters,
  so a string is modelled as a list of code points, not of bytes.
\<close>

type_synonym ustring = "nat list"

definition ustr :: "string \<Rightarrow> ustring" where
  "ustr s = map of_char s"

datatype py_error =
    IndexError
  | ZeroDivisionError
  | ValueError
  | JSONDecodeError
  | RecursionError
  | ProviderFailure

text \<open>
  \<open>str.strip()\<close>, \<open>str.split()\<close> and the regular expression class \<open>\s\<close> on \<open>str\<close> patterns
  all use CPython's \<open>Py_UNICODE_ISSPACE\<close>.
\<close>

definition isspace :: "nat \<Rightarrow> bool" where
  "isspace c = (c \<in> set [9, 10, 11, 12, 13, 28, 29, 30, 31, 32, 133, 160, 5760,
                           8232, 8233, 8239, 8287, 12288] \<or> (8192 \<le> c \<and> c \<le> 8202))"

text \<open>The line boundaries of \<open>str.splitlines()\<close>.\<close>

definition is_linebreak :: "nat \<Rightarrow> bool" where
  "is_linebreak c = (c \<in> set [10, 11, 12, 13, 28, 29, 30, 133, 8232, 8233])"

definition strip_chars :: "(nat \<Rightarrow> bool) \<Rightarrow> ustring \<Rightarrow> ustring" where
  "strip_chars P s = rev (dropWhile P (rev (dropWhile P s)))"

text \<open>\<open>s.strip()\<close>\<close>

definition strip :: "ustring \<Rightarrow> ustring" where
  "strip s = strip_chars isspace s"

text \<open>\<open>s.strip(" -\<bullet>")\<close>: space, hyphen-minus, U+2022.\<close>

definition strip_bullet_marks :: "ustring \<Rightarrow> ustring" where
  "strip_bullet_marks s = strip_chars (\<lambda>c. c \<in> set [32, 45, 8226]) s"

text \<open>\<open>sep.join(xs)\<close>\<close>

fun join :: "ustring \<Rightarrow> ustring list \<Rightarrow> ustring" where
  "join sep [] = []"
| "join sep [x] = x"
| "join sep (x # y # ys) = x @ sep @ join sep (y # ys)"

text \<open>
  \<open>s.splitlines()\<close>: the text is cut at every line boundary, \<open>\r\n\<close> counting as one
  boundary; a boundary at the very end opens no further line, and the empty string has
  no line at all. The first argument is the line read so far.
\<close>

fun splitlines_from :: "ustring \<Rightarrow> ustring \<Rightarrow> ustring list" where
  "splitlines_from cur [] = (if cur = [] then [] else [cur])"
| "splitlines_from cur (c # cs) =
     (if is_linebreak c
      then cur # splitlines_from [] (if c = 13 \<and> take 1 cs = [10] then drop 1 cs else cs)
      else splitlines_from (cur @ [c]) cs)"

definition splitlines :: "ustring \<Rightarrow> ustring list" where
  "splitlines s = splitlines_from [] s"

text \<open>
  Python's slice \<open>xs[:k]\<close> for an integer \<open>k\<close>: a negative \<open>k\<close> counts from the end.
\<close>

definition slice_to :: "int \<Rightarrow> 'a list \<Rightarrow> 'a list" where
  "slice_to k xs = (if 0 \<le> k then take (nat k) xs else take (length xs - nat (- k)) xs)"

section \<open>parser.py\<close>

record md_section =
  sec_title :: ustring
  sec_content :: ustring

record outline_entry =
  title :: ustring
  bullets :: "ustring list"

text \<open>
  \<open>re.match(r'^(#{1,6})\s+(.*)', line)\<close>, giving group 2 when the line matches.
  The greedy \<open>#{1,6}\<close> must be followed by white space, so the line matches exactly when
  it starts with one to six hashes followed by at least one white-space character;
  \<open>\s+\<close> then takes the whole run of white space and \<open>.*\<close> the rest up to a newline.
\<close>

definition match_heading :: "ustring \<Rightarrow> ustring option" where
  "match_heading l =
     (let n = length (takeWhile (\<lambda>c. c = 35) l); rest = drop n l
      in if 1 \<le> n \<and> n \<le> 6
         then (case rest of
                 [] \<Rightarrow> None
               | c # _ \<Rightarrow> if isspace c
                          then Some (takeWhile (\<lambda>c. c \<noteq> 10) (dropWhile isspace rest))
                          else None)
         else None)"

text \<open>
  The dictionary \<open>current\<close> of \<open>_split_markdown_sections\<close> is the pair of its title
  (\<open>None\<close> or a string) and its list of content lines. \<open>current_truthy\<close> is the test
  \<open>current["title"] or current["content"]\<close>, \<open>close_section\<close> the dictionary appended to
  \<open>sections\<close>.
\<close>

definition current_truthy :: "ustring option \<Rightarrow> ustring list \<Rightarrow> bool" where
  "current_truthy t c = ((case t of None \<Rightarrow> False | Some s \<Rightarrow> s \<noteq> []) \<or> c \<noteq> [])"

definition close_section :: "ustring option \<Rightarrow> ustring list \<Rightarrow> md_section" where
  "close_section t c =
     \<lparr>sec_title = (case t of None \<Rightarrow> ustr ''Section''
                   | Some s \<Rightarrow> if s \<noteq> [] then s else ustr ''Section''),
      sec_content = strip (join [10] c)\<rparr>"

fun sections_loop ::
  "ustring list \<Rightarrow> md_section list \<Rightarrow> ustring option \<Rightarrow> ustring list
     \<Rightarrow> md_section list \<times> ustring option \<times> ustring list" where
  "sections_loop [] secs t c = (secs, t, c)"
| "sections_loop (line # lines) secs t c =
     (case match_heading (strip line) of
        Some g2 \<Rightarrow>
          sections_loop lines
            (if current_truthy t c then secs @ [close_section t c] else secs)
            (Some (strip g2)) []
      | None \<Rightarrow> sections_loop lines secs t (c @ [line]))"

definition split_markdown_sections :: "ustring \<Rightarrow> md_section list" where
  "split_markdown_sections md =
     (case sections_loop (splitlines md) [] None [] of
        (secs, t, c) \<Rightarrow>
          filter (\<lambda>s. sec_title s \<noteq> [] \<or> sec_content s \<noteq> [])
            (if current_truthy t c then secs @ [close_section t c] else secs))"

text \<open>
  \<open>re.split(r'\n\s*\n', text)\<close>. A separator starts at a newline; the greedy \<open>\s*\<close> takes
  the whole run of white space after it and gives back characters until the last newline
  of that run, so there is a separator exactly when the run holds a newline, and it ends
  with the last one. \<open>blank_sep\<close> gives the number of characters of the separator after
  its first newline. The first argument of \<open>split_blank\<close> is the piece read so far.
\<close>

definition blank_sep :: "ustring \<Rightarrow> nat option" where
  "blank_sep r =
     (let ws = takeWhile isspace r
      in if 10 \<in> set ws
         then Some (length ws - length (takeWhile (\<lambda>c. c \<noteq> 10) (rev ws)))
         else None)"

fun split_blank :: "ustring \<Rightarrow> ustring \<Rightarrow> ustring list" where
  "split_blank cur [] = [cur]"
| "split_blank cur (c # r) =
     (case (if c = 10 then blank_sep r else None) of
        Some k \<Rightarrow> cur # split_blank [] (drop k r)
      | None \<Rightarrow> split_blank (cur @ [c]) r)"

text \<open>
  \<open>re.split(r'[\n\<bullet>\-]\s+', content)\<close>: a separator is a newline, U+2022 or a hyphen
  followed by the whole run of at least one white-space character.
\<close>

fun split_bullets :: "ustring \<Rightarrow> ustring \<Rightarrow> ustring list" where
  "split_bullets cur [] = [cur]"
| "split_bullets cur (c # r) =
     (if c \<in> set [10, 8226, 45] \<and> takeWhile isspace r \<noteq> []
      then cur # split_bullets [] (drop (length (takeWhile isspace r)) r)
      else split_bullets (cur @ [c]) r)"

text \<open>The paragraphs of the fallback pass and the section made from each.\<close>

definition paragraphs :: "ustring \<Rightarrow> ustring list" where
  "paragraphs text = map strip (filter (\<lambda>p. strip p \<noteq> []) (split_blank [] text))"

definition paragraph_section :: "ustring \<Rightarrow> md_section" where
  "paragraph_section p =
     (let t = take 80 (takeWhile (\<lambda>c. c \<noteq> 46) p)
      in \<lparr>sec_title = (if t \<noteq> [] then t else ustr ''Topic''), sec_content = p\<rparr>)"

definition candidate_sections :: "ustring \<Rightarrow> md_section list" where
  "candidate_sections text =
     (let sections = split_markdown_sections text
      in if sections = [] then sections @ map paragraph_section (paragraphs text)
         else sections)"

text \<open>
  The capping loop. \<open>bucket[0]\<close> raises \<open>IndexError\<close> on an empty bucket and
  \<open>len(sections)//max_slides\<close> raises \<open>ZeroDivisionError\<close> when \<open>max_slides\<close> is 0; the
  division is evaluated in every iteration, as in the source. On integers \<open>div\<close> is
  Python's floor division.
\<close>

definition merge_bucket :: "md_section list \<Rightarrow> py_error + md_section" where
  "merge_bucket bucket =
     (case bucket of
        [] \<Rightarrow> Inl IndexError
      | b # _ \<Rightarrow> Inr \<lparr>sec_title = sec_title b,
                      sec_content = join [10, 10] (map sec_content bucket)\<rparr>)"

fun cap_loop ::
  "int \<Rightarrow> nat \<Rightarrow> md_section list \<Rightarrow> md_section list \<Rightarrow> md_section list
     \<Rightarrow> py_error + (md_section list \<times> md_section list)" where
  "cap_loop k n [] merged bucket = Inr (merged, bucket)"
| "cap_loop k n (s # ss) merged bucket =
     (if k = 0 then Inl ZeroDivisionError
      else if max 1 (int n div k) \<le> int (length (bucket @ [s]))
      then (case merge_bucket (bucket @ [s]) of
              Inl e \<Rightarrow> Inl e
            | Inr b \<Rightarrow> cap_loop k n ss (merged @ [b]) [])
      else cap_loop k n ss merged (bucket @ [s]))"

definition cap_sections :: "md_section list \<Rightarrow> int \<Rightarrow> py_error + md_section list" where
  "cap_sections sections k =
     (if int (length sections) > k
      then (case cap_loop k (length sections) sections [] [] of
              Inl e \<Rightarrow> Inl e
            | Inr (merged, bucket) \<Rightarrow>
                if bucket \<noteq> []
                then (case merge_bucket bucket of
                        Inl e \<Rightarrow> Inl e
                      | Inr b \<Rightarrow> Inr (slice_to k (merged @ [b])))
                else Inr (slice_to k merged))
      else Inr sections)"

text \<open>
  The bullets of one section. \<open>textwrap.shorten(b, width=240, placeholder='\<dots>')\<close> is the
  standard library's; it is the parameter \<open>shorten\<close>, called with the text, the width and
  the placeholder.
\<close>

definition section_bullets ::
  "(ustring \<Rightarrow> nat \<Rightarrow> ustring \<Rightarrow> ustring) \<Rightarrow> md_section \<Rightarrow> ustring list" where
  "section_bullets shorten sec =
     map (\<lambda>b. if length b \<le> 240 then b else shorten b 240 [8230])
       (take 8 (map strip (filter (\<lambda>b. strip b \<noteq> []) (split_bullets [] (sec_content sec)))))"

definition heuristic_outline ::
  "(ustring \<Rightarrow> nat \<Rightarrow> ustring \<Rightarrow> ustring) \<Rightarrow> ustring \<Rightarrow> int
     \<Rightarrow> py_error + outline_entry list" where
  "heuristic_outline shorten text max_slides =
     (case cap_sections (candidate_sections text) max_slides of
        Inl e \<Rightarrow> Inl e
      | Inr sections \<Rightarrow>
          Inr (map (\<lambda>sec. \<lparr>title = take 90 (sec_title sec),
                           bullets = section_bullets shorten sec\<rparr>)
                 (slice_to max_slides sections)))"

definition heading_bullets :: "md_section \<Rightarrow> ustring list" where
  "heading_bullets s =
     take 8 (filter (\<lambda>b. length b > 0)
       (map strip_bullet_marks (filter (\<lambda>ln. strip ln \<noteq> []) (splitlines (sec_content s)))))"

definition outline_from_text ::
  "(ustring \<Rightarrow> nat \<Rightarrow> ustring \<Rightarrow> ustring) \<Rightarrow> ustring \<Rightarrow> ustring option \<Rightarrow> int
     \<Rightarrow> py_error + outline_entry list" where
  "outline_from_text shorten text guidance max_slides =
     (let secs = split_markdown_sections text
      in if secs \<noteq> []
         then Inr (map (\<lambda>s. \<lparr>title = take 90 (sec_title s), bullets = heading_bullets s\<rparr>)
                     (slice_to max_slides secs))
         else heuristic_outline shorten text max_slides)"

section \<open>Auxiliary notions for stating the capping step\<close>

text \<open>
  \<open>chunks s xs\<close> cuts \<open>xs\<close> into consecutive runs of \<open>s\<close> elements, the last one possibly
  shorter. \<open>bucket_of\<close> is the section \<open>merge_bucket\<close> makes of a non-empty bucket, and
  \<open>flush\<close> the statements after the capping loop that close the last, incomplete bucket.
\<close>

function chunks :: "nat \<Rightarrow> 'a list \<Rightarrow> 'a list list" where
  "chunks s xs = (if s = 0 \<or> xs = [] then [] else take s xs # chunks s (drop s xs))"
  by pat_completeness auto
termination
  by (relation "measure (\<lambda>(s, xs). length xs)") auto

declare chunks.simps [simp del]

definition bucket_of :: "md_section list \<Rightarrow> md_section" where
  "bucket_of b = \<lparr>sec_title = sec_title (hd b), sec_content = join [10, 10] (map sec_content b)\<rparr>"

definition flush :: "py_error + (md_section list \<times> md_section list) \<Rightarrow> py_error + md_section list" where
  "flush r = (case r of Inl e \<Rightarrow> Inl e
     | Inr (merged, bucket) \<Rightarrow>
         if bucket \<noteq> [] then (case merge_bucket bucket of Inl e \<Rightarrow> Inl e | Inr b \<Rightarrow> Inr (merged @ [b]))
         else Inr merged)"


text \<open>
  The capping step as claim C4 words it: consecutive runs of \<open>ceil(count / max_slides)\<close>
  sections, cut to \<open>max_slides\<close> buckets. \<open>demo_sections n\<close> are \<open>n\<close> sections titled
  \<open>A\<close>, \<open>B\<close>, ... with contents \<open>a\<close>, \<open>b\<close>, ...
\<close>

definition spec_ceil_buckets :: "md_section list \<Rightarrow> nat \<Rightarrow> md_section list" where
  "spec_ceil_buckets secs k =
     take k (map bucket_of (chunks ((length secs + k - 1) div k) secs))"

definition demo_sections :: "nat \<Rightarrow> md_section list" where
  "demo_sections n = map (\<lambda>i. \<lparr>sec_title = [65 + i], sec_content = [97 + i]\<rparr>) [0..<n]"


section \<open>Evaluation of the string operations\<close>

lemmas str_eval = ustr_def is_linebreak_def isspace_def strip_def strip_chars_def
  strip_bullet_marks_def splitlines_def match_heading_def current_truthy_def
  close_section_def

lemma two_paragraphs_sections:
  "split_markdown_sections (ustr ''Al. B'' @ [10, 10] @ ustr ''Ga. D'') =
     [\<lparr>sec_title = ustr ''Section'',
       sec_content = ustr ''Al. B'' @ [10, 10] @ ustr ''Ga. D''\<rparr>]"
  by (simp add: split_markdown_sections_def str_eval)

lemma splitlines_from_plain:
  "\<forall>c\<in>set w. \<not> is_linebreak c \<Longrightarrow>
   splitlines_from cur w = (if cur @ w = [] then [] else [cur @ w])"
  by (induction w arbitrary: cur) auto

lemma strip_chars_plain:
  "w \<noteq> [] \<Longrightarrow> \<not> P (hd w) \<Longrightarrow> \<not> P (last w) \<Longrightarrow> strip_chars P w = w"
proof -
  assume ne: "w \<noteq> []" and h: "\<not> P (hd w)" and l: "\<not> P (last w)"
  have a: "dropWhile P w = w" using ne h by (cases w) auto
  obtain ys y where w: "w = ys @ [y]" using ne by (cases w rule: rev_cases) auto
  have b: "dropWhile P (rev w) = rev w" using l unfolding w by simp
  show ?thesis by (simp add: strip_chars_def a b)
qed

text \<open>
  A heading \<open># T\<close> followed by one line \<open>w\<close> without white space, line boundaries, hashes
  or bullet marks: the structural entry point returns \<open>w\<close> as the only bullet, whatever
  its length.
\<close>

lemma heading_line_outline:
  assumes ne: "w \<noteq> []"
    and pl: "\<forall>c\<in>set w. \<not> isspace c \<and> \<not> is_linebreak c \<and> c \<notin> {35, 45, 8226}"
  shows "outline_from_text sh (ustr ''# T'' @ [10] @ w) None 12 =
           Inr [\<lparr>title = ustr ''T'', bullets = [w]\<rparr>]"
proof -
  have hl: "hd w \<in> set w" "last w \<in> set w" using ne by auto
  have sw: "strip w = w"
    unfolding strip_def using ne pl hl by (intro strip_chars_plain) auto
  have bw: "strip_bullet_marks w = w"
    unfolding strip_bullet_marks_def using ne pl hl
    by (intro strip_chars_plain) (auto simp: isspace_def)
  have slw: "splitlines w = [w]"
    using ne pl by (simp add: splitlines_def splitlines_from_plain)
  have sl: "splitlines (ustr ''# T'' @ [10] @ w) = [ustr ''# T'', w]"
    using ne pl by (simp add: splitlines_def ustr_def is_linebreak_def splitlines_from_plain)
  have h1: "match_heading (strip (ustr ''# T'')) = Some (ustr ''T'')"
    by (simp add: str_eval)
  have st: "strip (ustr ''T'') = ustr ''T''"
    by (simp add: str_eval)
  have h2: "match_heading w = None"
  proof -
    have "hd w \<noteq> 35" using pl hl by auto
    then have "takeWhile (\<lambda>c. c = 35) w = []" using ne by (cases w) auto
    then show ?thesis by (simp add: match_heading_def)
  qed
  have secs: "split_markdown_sections (ustr ''# T'' @ [10] @ w) =
      [\<lparr>sec_title = ustr ''T'', sec_content = w\<rparr>]"
    using ne by (simp only: split_markdown_sections_def sl)
      (simp add: h1 h2 sw st current_truthy_def close_section_def, simp add: ustr_def)
  have hb: "heading_bullets \<lparr>sec_title = ustr ''T'', sec_content = w\<rparr> = [w]"
    using ne by (simp add: heading_bullets_def slw sw bw)
  show ?thesis
    by (simp only: outline_from_text_def secs Let_def) (simp add: slice_to_def hb, simp add: ustr_def)
qed

section \<open>The capping loop cuts the sections into runs\<close>

lemma merge_bucket_ne: "b \<noteq> [] \<Longrightarrow> merge_bucket b = Inr (bucket_of b)"
  by (cases b) (simp_all add: merge_bucket_def bucket_of_def)

lemma chunks_Nil [simp]: "chunks s [] = []"
  by (simp add: chunks.simps)

lemma chunks_short: "0 < s \<Longrightarrow> xs \<noteq> [] \<Longrightarrow> length xs \<le> s \<Longrightarrow> chunks s xs = [xs]"
  by (subst chunks.simps) simp

lemma chunks_full: "0 < length b \<Longrightarrow> chunks (length b) (b @ ys) = b # chunks (length b) ys"
  by (subst chunks.simps) auto

lemma cap_loop_chunks:
  assumes k: "k \<noteq> 0" and s: "s = nat (max 1 (int n div k))"
  shows "length bucket < s \<Longrightarrow>
    flush (cap_loop k n ss merged bucket) = Inr (merged @ map bucket_of (chunks s (bucket @ ss)))"
proof (induction ss arbitrary: merged bucket)
  case Nil
  have "0 < s" using s by simp
  then show ?case using Nil
    by (cases "bucket = []") (simp_all add: flush_def merge_bucket_ne chunks_short)
next
  case (Cons x ss)
  have s0: "0 < s" using s by simp
  have thr: "(max 1 (int n div k) \<le> int (length (bucket @ [x]))) = (s \<le> length (bucket @ [x]))"
    using s by auto
  show ?case
  proof (cases "s \<le> length (bucket @ [x])")
    case True
    then have len: "length (bucket @ [x]) = s" using Cons.prems by simp
    have "chunks s (bucket @ x # ss) = (bucket @ [x]) # chunks s ss"
      using chunks_full [of "bucket @ [x]" ss] len by simp
    moreover have "flush (cap_loop k n ss (merged @ [bucket_of (bucket @ [x])]) []) =
        Inr ((merged @ [bucket_of (bucket @ [x])]) @ map bucket_of (chunks s ([] @ ss)))"
      using s0 by (intro Cons.IH) simp
    ultimately show ?thesis
      using k True thr by (simp add: merge_bucket_ne)
  next
    case False
    then have "length (bucket @ [x]) < s" by simp
    from Cons.IH [OF this, of merged] show ?thesis
      using k False thr by simp
  qed
qed

lemma chunks_length_ge: "0 < s \<Longrightarrow> m * s \<le> length xs \<Longrightarrow> m \<le> length (chunks s xs)"
proof (induction m arbitrary: xs)
  case 0
  then show ?case by simp
next
  case (Suc m)
  then have ne: "xs \<noteq> []" by auto
  have c: "chunks s xs = take s xs # chunks s (drop s xs)"
    using ne Suc.prems by (subst chunks.simps) simp
  have "m * s \<le> length (drop s xs)" using Suc.prems by simp
  then have "m \<le> length (chunks s (drop s xs))" using Suc.IH Suc.prems by blast
  then show ?case by (simp add: c)
qed

lemma nth_chunks: "0 < s \<Longrightarrow> i < length (chunks s xs) \<Longrightarrow> chunks s xs ! i = take s (drop (i * s) xs)"
proof (induction s xs arbitrary: i rule: chunks.induct)
  case (1 s xs)
  have ne: "xs \<noteq> []" using 1 by auto
  have c: "chunks s xs = take s xs # chunks s (drop s xs)"
    using ne 1 by (subst chunks.simps) simp
  show ?case
  proof (cases i)
    case 0
    then show ?thesis by (simp add: c)
  next
    case (Suc j)
    then have "j < length (chunks s (drop s xs))" using 1(3) c by simp
    with 1 ne have "chunks s (drop s xs) ! j = take s (drop (j * s) (drop s xs))" by simp
    then show ?thesis using Suc by (simp add: c add.commute)
  qed
qed

lemma cap_sections_chunks:
  assumes k: "k \<noteq> 0" and gt: "k < int (length secs)"
  shows "cap_sections secs k =
    Inr (slice_to k (map bucket_of (chunks (nat (max 1 (int (length secs) div k))) secs)))"
proof -
  let ?s = "nat (max 1 (int (length secs) div k))"
  have "0 < ?s" by simp
  then have f: "flush (cap_loop k (length secs) secs [] []) =
      Inr ([] @ map bucket_of (chunks ?s ([] @ secs)))"
    using k by (intro cap_loop_chunks) simp_all
  show ?thesis
  proof (cases "cap_loop k (length secs) secs [] []")
    case (Inl e)
    then show ?thesis using f by (simp add: flush_def)
  next
    case (Inr p)
    obtain m b where p: "p = (m, b)" by (cases p)
    show ?thesis
      using f gt Inr p
      by (cases "b = []") (auto simp: flush_def cap_sections_def merge_bucket_ne)
  qed
qed

lemma cap_sections_small: "int (length secs) \<le> k \<Longrightarrow> cap_sections secs k = Inr secs"
  by (simp add: cap_sections_def)


lemma demo7: "cap_sections (demo_sections 7) 5 = Inr (map (\<lambda>x. bucket_of [x]) (demo_sections 5))"
  by (simp add: demo_sections_def cap_sections_def merge_bucket_def slice_to_def bucket_of_def upt_rec)

section \<open>Every non-empty text has a section\<close>

lemma splitlines_from_ne: "cur \<noteq> [] \<or> s \<noteq> [] \<Longrightarrow> splitlines_from cur s \<noteq> []"
  by (induction s arbitrary: cur) auto

lemma splitlines_ne: "text \<noteq> [] \<Longrightarrow> splitlines text \<noteq> []"
  by (simp add: splitlines_def splitlines_from_ne)

lemma strip_chars_Nil_iff: "strip_chars P s = [] \<longleftrightarrow> (\<forall>x\<in>set s. P x)"
proof
  assume "strip_chars P s = []"
  then have a: "\<forall>x\<in>set (dropWhile P s). P x"
    by (simp add: strip_chars_def dropWhile_eq_Nil_conv)
  show "\<forall>x\<in>set s. P x"
  proof (cases "dropWhile P s")
    case Nil
    then show ?thesis by (simp add: dropWhile_eq_Nil_conv)
  next
    case (Cons y ys)
    then have "\<not> P y" by (metis hd_dropWhile list.sel(1) list.distinct(1))
    moreover have "P y" using a Cons by simp
    ultimately show ?thesis by simp
  qed
next
  assume "\<forall>x\<in>set s. P x"
  then have d: "dropWhile P s = []" by (simp add: dropWhile_eq_Nil_conv)
  show "strip_chars P s = []" unfolding strip_chars_def d by simp
qed

lemma strip_chars_last: "strip_chars P s \<noteq> [] \<Longrightarrow> \<not> P (last (strip_chars P s))"
proof -
  assume ne: "strip_chars P s \<noteq> []"
  let ?d = "dropWhile P (rev (dropWhile P s))"
  have "?d \<noteq> []" using ne by (simp add: strip_chars_def)
  then have "\<not> P (hd ?d)" by (rule hd_dropWhile)
  moreover have "last (strip_chars P s) = hd ?d"
    using \<open>?d \<noteq> []\<close> by (simp add: strip_chars_def last_rev)
  ultimately show ?thesis by simp
qed

lemma heading_title_ne:
  assumes "match_heading (strip l) = Some g"
  shows "strip g \<noteq> []"
proof -
  let ?l = "strip l"
  let ?n = "length (takeWhile (\<lambda>c. c = 35) ?l)"
  let ?rest = "drop ?n ?l"
  let ?d = "dropWhile isspace ?rest"
  from assms have rest: "?rest \<noteq> []" and g: "g = takeWhile (\<lambda>c. c \<noteq> 10) ?d"
    by (auto simp: match_heading_def Let_def split: if_splits list.splits)
  then have lne: "?l \<noteq> []" by auto
  have "\<not> isspace (last ?l)" using lne unfolding strip_def by (rule strip_chars_last)
  moreover have "last ?rest = last ?l" using rest by (simp add: last_drop)
  ultimately have nl: "\<not> isspace (last ?rest)" by simp
  have "last ?rest \<in> set ?rest" by (rule last_in_set [OF rest])
  then have dne: "?d \<noteq> []" using nl by (auto simp: dropWhile_eq_Nil_conv)
  then have hd: "\<not> isspace (hd ?d)" by (rule hd_dropWhile)
  have "isspace 10" by (simp add: isspace_def)
  then have "hd ?d \<noteq> 10" using hd by auto
  then have "hd ?d \<in> set g" using dne unfolding g by (cases ?d) auto
  then show ?thesis using hd unfolding strip_def by (auto simp: strip_chars_Nil_iff)
qed

lemma sections_loop_truthy:
  "sections_loop lines secs t c = (secs', t', c') \<Longrightarrow> lines \<noteq> [] \<or> current_truthy t c \<Longrightarrow>
   current_truthy t' c'"
proof (induction lines arbitrary: secs t c)
  case Nil
  then show ?case by simp
next
  case (Cons line lines)
  show ?case
  proof (cases "match_heading (strip line)")
    case None
    with Cons.prems have "sections_loop lines secs t (c @ [line]) = (secs', t', c')" by simp
    then show ?thesis by (rule Cons.IH) (simp add: current_truthy_def)
  next
    case (Some g)
    then have "strip g \<noteq> []" by (rule heading_title_ne)
    then have tr: "current_truthy (Some (strip g)) []" by (simp add: current_truthy_def)
    from Cons.prems Some have "sections_loop lines
        (if current_truthy t c then secs @ [close_section t c] else secs) (Some (strip g)) [] =
        (secs', t', c')" by simp
    then show ?thesis using tr by (rule Cons.IH [OF _ disjI2])
  qed
qed

lemma close_section_title_ne: "sec_title (close_section t c) \<noteq> []"
  by (simp add: close_section_def ustr_def split: option.splits)

lemma split_markdown_sections_ne: "text \<noteq> [] \<Longrightarrow> split_markdown_sections text \<noteq> []"
proof -
  assume ne: "text \<noteq> []"
  obtain secs t c where r: "sections_loop (splitlines text) [] None [] = (secs, t, c)"
    by (cases "sections_loop (splitlines text) [] None []") auto
  have "current_truthy t c"
    using r splitlines_ne [OF ne] by (auto intro: sections_loop_truthy)
  then show ?thesis
    by (simp add: split_markdown_sections_def r close_section_title_ne)
qed

lemma split_markdown_sections_empty: "split_markdown_sections [] = []"
  by (simp add: split_markdown_sections_def splitlines_def current_truthy_def)

lemma candidate_sections_empty: "candidate_sections [] = []"
  by (simp add: candidate_sections_def split_markdown_sections_empty paragraphs_def strip_def
      strip_chars_def)

lemma cap_sections_length:
  assumes k: "1 \<le> k" and ne: "secs \<noteq> []"
  shows "\<exists>m. cap_sections secs k = Inr m \<and> 1 \<le> length m \<and> int (length m) \<le> k"
proof (cases "k < int (length secs)")
  case True
  let ?s = "nat (max 1 (int (length secs) div k))"
  have c: "chunks ?s secs \<noteq> []" using ne by (subst chunks.simps) simp
  have "cap_sections secs k = Inr (take (nat k) (map bucket_of (chunks ?s secs)))"
    using cap_sections_chunks [of k secs] k True by (simp add: slice_to_def)
  moreover have "1 \<le> length (take (nat k) (map bucket_of (chunks ?s secs)))"
    using c k by (cases "chunks ?s secs") auto
  moreover have "int (length (take (nat k) (map bucket_of (chunks ?s secs)))) \<le> k"
    using k by simp
  ultimately show ?thesis by blast
next
  case False
  then show ?thesis using ne by (cases secs) (auto simp: cap_sections_small)
qed

section \<open>Claims about the outline extractor\<close>

text \<open>
  Claim C1. Titles have at most 90 characters and an entry has at most 8 bullets on both
  entry points, but the bound of 240 characters on a bullet holds only where
  \<open>heuristic_outline\<close> shortens the bullets. \<open>outline_from_text\<close> takes the structural
  path whenever the text has a section, and there a bullet is a stripped line, never
  shortened: for the heading \<open># T\<close> followed by a line of 241 letters \<open>a\<close> the only bullet
  has 241 characters.
\<close>

theorem C1_heading_bullet_longer_than_240:
  "outline_from_text sh (ustr ''# T'' @ [10] @ replicate 241 97) None 12 =
     Inr [\<lparr>title = ustr ''T'', bullets = [replicate 241 97]\<rparr>]
   \<and> length (replicate 241 (97::nat)) = 241"
  using heading_line_outline [of "replicate 241 97" sh]
  by (simp add: isspace_def is_linebreak_def)

text \<open>
  Claim C3. The claim says that a text without heading markers is split on blank lines
  into paragraphs, one candidate section per paragraph, titled by the paragraph's first
  sentence, so that two paragraphs give an outline of length 2. The code does not do
  that: \<open>_split_markdown_sections\<close> collects the lines without a heading into
  \<open>current["content"]\<close>, a list that is truthy as soon as it holds one line, and closes
  it as one section titled \<open>Section\<close>; \<open>sections\<close> is then not empty and the paragraph
  pass of \<open>heuristic_outline\<close> is skipped. For the two paragraphs \<open>Al. B\<close> and \<open>Ga. D\<close>
  separated by a blank line, and \<open>max_slides = 12\<close>, the outline has one entry, titled
  \<open>Section\<close>, not two entries titled \<open>Al\<close> and \<open>Ga\<close>.
\<close>

theorem C3_two_paragraphs_give_one_section:
  "heuristic_outline sh (ustr ''Al. B'' @ [10, 10] @ ustr ''Ga. D'') 12 =
     Inr [\<lparr>title = ustr ''Section'', bullets = [ustr ''Al. B'', ustr ''Ga. D'']\<rparr>]"
proof -
  have cs: "candidate_sections (ustr ''Al. B'' @ [10, 10] @ ustr ''Ga. D'') =
      [\<lparr>sec_title = ustr ''Section'',
        sec_content = ustr ''Al. B'' @ [10, 10] @ ustr ''Ga. D''\<rparr>]"
    by (simp only: candidate_sections_def two_paragraphs_sections Let_def) simp
  have bl: "section_bullets sh
      \<lparr>sec_title = ustr ''Section'',
        sec_content = ustr ''Al. B'' @ [10, 10] @ ustr ''Ga. D''\<rparr> =
      [ustr ''Al. B'', ustr ''Ga. D'']"
    by (simp add: section_bullets_def str_eval)
  show ?thesis
    using bl
    by (simp only: heuristic_outline_def cs) (simp add: cap_sections_def slice_to_def ustr_def)
qed

text \<open>
  Claim C4, as stated: buckets of \<open>ceil(count / max_slides)\<close> consecutive sections. The
  code divides with \<open>//\<close>, so the bucket size is the floor: 7 sections with
  \<open>max_slides = 5\<close> give buckets of one section each, of which the first 5 are kept,
  not the runs of 2 sections the claim describes.
\<close>

theorem C4_ceil_buckets_counterexample:
  "cap_sections (demo_sections 7) 5 \<noteq> Inr (spec_ceil_buckets (demo_sections 7) 5)"
proof -
  have a: "length (spec_ceil_buckets (demo_sections 7) 5) = 4"
    by (simp add: spec_ceil_buckets_def demo_sections_def upt_rec chunks.simps)
  have b: "length (map (\<lambda>x. bucket_of [x]) (demo_sections 5)) = 5"
    by (simp add: demo_sections_def)
  show ?thesis
  proof
    assume "cap_sections (demo_sections 7) 5 = Inr (spec_ceil_buckets (demo_sections 7) 5)"
    then have "map (\<lambda>x. bucket_of [x]) (demo_sections 5) = spec_ceil_buckets (demo_sections 7) 5"
      by (simp only: demo7 sum.inject)
    then have "length (map (\<lambda>x. bucket_of [x]) (demo_sections 5)) =
        length (spec_ceil_buckets (demo_sections 7) 5)" by (rule arg_cong)
    then show False by (simp only: a b)
  qed
qed


text \<open>
  Claim C4, amended. When there are more candidate sections than \<open>max_slides = k \<ge> 1\<close>,
  the capped list has exactly \<open>k\<close> buckets; bucket \<open>i\<close> (counting from 0) is made of the
  \<open>count div k\<close> consecutive sections starting at section \<open>i * (count div k)\<close>, is titled
  by the first of them and holds their contents joined by blank lines. Sections after
  the first \<open>k\<close> buckets are dropped. For 20 sections and \<open>k = 5\<close> the buckets are
  sections 1..4, 5..8, 9..12, 13..16 and 17..20.
\<close>

theorem C4_buckets_of_floor_size:
  assumes k1: "1 \<le> k" and gt: "k < int (length secs)"
  shows "\<exists>merged. cap_sections secs k = Inr merged \<and> length merged = nat k \<and>
    (\<forall>i < nat k. merged ! i =
       \<lparr>sec_title = sec_title (secs ! (i * (length secs div nat k))),
        sec_content = join [10, 10]
          (map sec_content (take (length secs div nat k)
             (drop (i * (length secs div nat k)) secs)))\<rparr>)"
proof -
  let ?n = "length secs" and ?K = "nat k"
  let ?s = "?n div ?K"
  have K: "0 < ?K" "?K < ?n" using k1 gt by auto
  have s1: "1 \<le> ?s" using K by (simp add: Suc_leI div_greater_zero_iff)
  have "int ?n div k = int (?n div ?K)" using k1 by (simp add: zdiv_int)
  then have thr: "nat (max 1 (int ?n div k)) = ?s" using s1 by simp
  let ?cs = "chunks ?s secs"
  have cap: "cap_sections secs k = Inr (take ?K (map bucket_of ?cs))"
    using cap_sections_chunks [of k secs] k1 gt thr by (simp add: slice_to_def)
  have "?K * ?s \<le> ?n" by (simp add: mult.commute)
  then have len: "?K \<le> length ?cs" using s1 by (intro chunks_length_ge) auto
  have nth: "take ?K (map bucket_of ?cs) ! i =
       \<lparr>sec_title = sec_title (secs ! (i * ?s)),
        sec_content = join [10, 10] (map sec_content (take ?s (drop (i * ?s) secs)))\<rparr>"
    if i: "i < ?K" for i
  proof -
    have il: "i < length ?cs" using i len by simp
    have ci: "?cs ! i = take ?s (drop (i * ?s) secs)"
      using s1 il by (intro nth_chunks) auto
    have b: "Suc i * ?s \<le> ?K * ?s" using i by (intro mult_le_mono1) simp
    have c: "?K * ?s \<le> ?n" by (simp add: mult.commute)
    have "Suc i * ?s \<le> ?n" by (rule order_trans [OF b c])
    then have lt: "i * ?s < ?n" using s1 by simp
    have "hd (take ?s (drop (i * ?s) secs)) = secs ! (i * ?s)"
      using s1 lt by (simp add: hd_drop_conv_nth)
    then show ?thesis using i il ci by (simp add: bucket_of_def)
  qed
  show ?thesis
    using cap len nth by (intro exI [of _ "take ?K (map bucket_of ?cs)"]) simp
qed


theorem C4_buckets_of_floor_size_witness:
  "(1::int) \<le> 5 \<and> 5 < int (length (demo_sections 20)) \<and>
   cap_sections (demo_sections 20) 5 =
     Inr [\<lparr>sec_title = [65], sec_content = [97, 10, 10, 98, 10, 10, 99, 10, 10, 100]\<rparr>,
          \<lparr>sec_title = [69], sec_content = [101, 10, 10, 102, 10, 10, 103, 10, 10, 104]\<rparr>,
          \<lparr>sec_title = [73], sec_content = [105, 10, 10, 106, 10, 10, 107, 10, 10, 108]\<rparr>,
          \<lparr>sec_title = [77], sec_content = [109, 10, 10, 110, 10, 10, 111, 10, 10, 112]\<rparr>,
          \<lparr>sec_title = [81], sec_content = [113, 10, 10, 114, 10, 10, 115, 10, 10, 116]\<rparr>]"
proof -
  have l: "length (demo_sections 20) = 20" by (simp add: demo_sections_def)
  have h: "(1::int) \<le> 5" "5 < int (length (demo_sections 20))" by (simp_all add: l)
  from C4_buckets_of_floor_size [OF h] obtain m where
    c: "cap_sections (demo_sections 20) 5 = Inr m" and len: "length m = 5" and
    n: "\<And>i. i < 5 \<Longrightarrow> m ! i = \<lparr>sec_title = sec_title (demo_sections 20 ! (i * 4)),
        sec_content = join [10, 10] (map sec_content (take 4 (drop (i * 4) (demo_sections 20))))\<rparr>"
    by (auto simp: l)
  have "m = [m ! 0, m ! 1, m ! 2, m ! 3, m ! 4]"
    using len by (intro nth_equalityI) (auto simp: less_Suc_eq numeral_eq_Suc)
  also have "\<dots> = [\<lparr>sec_title = [65], sec_content = [97, 10, 10, 98, 10, 10, 99, 10, 10, 100]\<rparr>,
          \<lparr>sec_title = [69], sec_content = [101, 10, 10, 102, 10, 10, 103, 10, 10, 104]\<rparr>,
          \<lparr>sec_title = [73], sec_content = [105, 10, 10, 106, 10, 10, 107, 10, 10, 108]\<rparr>,
          \<lparr>sec_title = [77], sec_content = [109, 10, 10, 110, 10, 10, 111, 10, 10, 112]\<rparr>,
          \<lparr>sec_title = [81], sec_content = [113, 10, 10, 114, 10, 10, 115, 10, 10, 116]\<rparr>]"
    by (simp add: n) (simp add: demo_sections_def upt_rec)
  finally show ?thesis using c h by simp
qed

text \<open>
  Claim C2. Both entry points return an outline, never an error, for every non-empty
  text and every \<open>max_slides = k \<ge> 1\<close>; the outline has at least one and at most \<open>k\<close>
  entries. For the empty text both return the empty outline, for every \<open>k\<close>.
\<close>

theorem C2_outline_length_between_1_and_k:
  "(text \<noteq> [] \<and> 1 \<le> k \<longrightarrow>
      (\<exists>out. heuristic_outline sh text k = Inr out \<and> 1 \<le> length out \<and> int (length out) \<le> k) \<and>
      (\<exists>out. outline_from_text sh text g k = Inr out \<and> 1 \<le> length out \<and> int (length out) \<le> k))
   \<and> heuristic_outline sh [] k = Inr [] \<and> outline_from_text sh [] g k = Inr []"
proof (intro conjI impI)
  assume a: "text \<noteq> [] \<and> 1 \<le> k"
  then have ne: "split_markdown_sections text \<noteq> []" by (simp add: split_markdown_sections_ne)
  then have cs: "candidate_sections text = split_markdown_sections text"
    by (simp add: candidate_sections_def)
  from cap_sections_length [of k "split_markdown_sections text"] a ne
  obtain m where m: "cap_sections (split_markdown_sections text) k = Inr m"
      "1 \<le> length m" "int (length m) \<le> k" by auto
  have "slice_to k m = m" using m a by (simp add: slice_to_def)
  then show "\<exists>out. heuristic_outline sh text k = Inr out \<and> 1 \<le> length out \<and> int (length out) \<le> k"
    using m by (simp add: heuristic_outline_def cs)
  have "1 \<le> length (slice_to k (split_markdown_sections text))"
    using ne a by (cases "split_markdown_sections text") (auto simp: slice_to_def)
  moreover have "int (length (slice_to k (split_markdown_sections text))) \<le> k"
    using a by (auto simp: slice_to_def min_def)
  ultimately show "\<exists>out. outline_from_text sh text g k = Inr out \<and> 1 \<le> length out \<and> int (length out) \<le> k"
    using ne by (simp add: outline_from_text_def)
next
  show h: "heuristic_outline sh [] k = Inr []"
    by (simp add: heuristic_outline_def candidate_sections_empty cap_sections_def slice_to_def)
  show "outline_from_text sh [] g k = Inr []"
    by (simp add: outline_from_text_def split_markdown_sections_empty h)
qed

theorem C2_outline_length_between_1_and_k_witness:
  "ustr ''a'' \<noteq> [] \<and> (1::int) \<le> 3 \<and>
   (\<exists>out. heuristic_outline (\<lambda>b w p. take w b) (ustr ''a'') 3 = Inr out \<and>
       1 \<le> length out \<and> int (length out) \<le> 3) \<and>
   (\<exists>out. outline_from_text (\<lambda>b w p. take w b) (ustr ''a'') None 3 = Inr out \<and>
       1 \<le> length out \<and> int (length out) \<le> 3)"
  using C2_outline_length_between_1_and_k [of "ustr ''a''" 3 "\<lambda>b w p. take w b" None]
  by (simp add: ustr_def)

end
